theory Spec2Isabelle
  imports Main
begin

section \<open>Rich-text runs\<close>

text \<open>
  The translator of \<^verbatim>\<open>main.py\<close> builds a \<^verbatim>\<open>RichText\<close> object of the template
  library by calls of \<^verbatim>\<open>rt.add(text, bold=..., font='Calibri', size=22)\<close>. Each
  call appends one run to the object, also when the text is empty, so the object is
  modelled as the list of the runs added so far, in order.

  A Python \<^verbatim>\<open>str\<close> is modelled as a \<^typ>\<open>string\<close>, one \<^typ>\<open>char\<close> per position.
  The pattern of the translator tells only the asterisk and the line feed from all
  other characters.
\<close>

record run =
  run_text :: string
  run_bold :: bool
  run_font :: string
  run_size :: nat

type_synonym richtext = "run list"

definition add :: "richtext \<Rightarrow> string \<Rightarrow> bool \<Rightarrow> richtext" where
  "add rt text bold =
     rt @ [\<lparr>run_text = text, run_bold = bold, run_font = ''Calibri'', run_size = 22\<rparr>]"

definition plain_run :: "string \<Rightarrow> run" where
  "plain_run t = \<lparr>run_text = t, run_bold = False, run_font = ''Calibri'', run_size = 22\<rparr>"

definition bold_run :: "string \<Rightarrow> run" where
  "bold_run t = \<lparr>run_text = t, run_bold = True, run_font = ''Calibri'', run_size = 22\<rparr>"

definition text_of :: "richtext \<Rightarrow> string" where
  "text_of rt = concat (map run_text rt)"

section \<open>The pattern \<^verbatim>\<open>\*\*(.*?)\*\*\<close>\<close>

text \<open>
  \<^verbatim>\<open>re.finditer(r'\*\*(.*?)\*\*', text_value)\<close> is compiled without flags, so the
  dot matches every character but the line feed. The lazy group is tried with no
  character first: at each position the closing \<^verbatim>\<open>**\<close> is tried, and only when it is
  absent one more character is taken into the group, which fails at a line feed and
  at the end of the text.
\<close>

definition star :: char where
  "star = CHR ''*''"

definition newline :: char where
  "newline = CHR 0x0A"

definition dot :: "char \<Rightarrow> bool" where
  "dot c = (c \<noteq> newline)"

fun starts_delim :: "string \<Rightarrow> bool" where
  "starts_delim (a # b # cs) = (a = star \<and> b = star)"
| "starts_delim _ = False"

text \<open>\<open>lazy_group s\<close>: the text after an opening delimiter is \<open>s\<close>; the group matched.\<close>

fun lazy_group :: "string \<Rightarrow> string option" where
  "lazy_group [] = None"
| "lazy_group (c # cs) =
     (if starts_delim (c # cs) then Some []
      else if dot c then map_option ((#) c) (lazy_group cs)
      else None)"

definition match_at :: "string \<Rightarrow> string option" where
  "match_at s = (if starts_delim s then lazy_group (drop 2 s) else None)"

record rmatch =
  m_start :: nat
  m_end :: nat
  m_group :: string

text \<open>
  \<open>scan off s\<close>: the matches in the text \<open>s\<close> that begins at position \<open>off\<close> of the
  input, leftmost first and without overlap: the search goes on at the end of the
  last match.
\<close>

fun scan :: "nat \<Rightarrow> string \<Rightarrow> rmatch list" where
  "scan off [] = []"
| "scan off (c # cs) =
     (case match_at (c # cs) of
        None \<Rightarrow> scan (Suc off) cs
      | Some g \<Rightarrow>
          \<lparr>m_start = off, m_end = off + (4 + length g), m_group = g\<rparr>
            # scan (off + (4 + length g)) (drop (4 + length g) (c # cs)))"

definition finditer :: "string \<Rightarrow> rmatch list" where
  "finditer s = scan 0 s"

section \<open>The markup translator\<close>

text \<open>Python's \<^verbatim>\<open>s[i:j]\<close> and \<^verbatim>\<open>s[i:]\<close> for indices that are not negative.\<close>

definition slice :: "string \<Rightarrow> nat \<Rightarrow> nat \<Rightarrow> string" where
  "slice s i j = take (j - i) (drop i s)"

definition slice_from :: "string \<Rightarrow> nat \<Rightarrow> string" where
  "slice_from s i = drop i s"

text \<open>The body of \<^verbatim>\<open>for match in matches\<close>, on the pair of \<^verbatim>\<open>last_index\<close> and \<^verbatim>\<open>rt\<close>.\<close>

fun for_matches :: "string \<Rightarrow> rmatch list \<Rightarrow> nat \<times> richtext \<Rightarrow> nat \<times> richtext" where
  "for_matches text_value [] st = st"
| "for_matches text_value (m # ms) (last_index, rt) =
     (let start_of_match = m_start m;
          rt1 = (if start_of_match > last_index
                 then add rt (slice text_value last_index start_of_match) False
                 else rt);
          bold_text = m_group m;
          rt2 = (if bold_text \<noteq> [] then add rt1 bold_text True else rt1)
      in for_matches text_value ms (m_end m, rt2))"

definition attempt_to_parse_markdown :: "string \<Rightarrow> richtext" where
  "attempt_to_parse_markdown text_value =
     (let matches = finditer text_value in
      if matches = [] then add [] text_value False
      else
        (case for_matches text_value matches (0, []) of
           (last_index, rt) \<Rightarrow>
             if last_index < length text_value
             then add rt (slice_from text_value last_index) False
             else rt))"

text \<open>
  The end of the translator, after the loop: the text behind the last match is added
  when there is any.
\<close>

definition finish :: "string \<Rightarrow> nat \<times> richtext \<Rightarrow> richtext" where
  "finish s st =
     (case st of (last_index, rt) \<Rightarrow>
        if last_index < length s then add rt (slice_from s last_index) False else rt)"

section \<open>Values of the context\<close>

text \<open>
  The context comes from a JSON body: a \<^verbatim>\<open>dict\<close> from field names to values. A value
  is \<^verbatim>\<open>None\<close>, a boolean, a number, a string, a list or a nested \<^verbatim>\<open>dict\<close>; the
  rewriter adds the \<^verbatim>\<open>RichText\<close> objects. A floating-point number is opaque here:
  the rewriter only hands it on. A \<^verbatim>\<open>dict\<close> is an association list in the order
  of insertion; its keys are distinct.
\<close>

typedecl pyfloat

datatype pyval =
    VNone
  | VBool bool
  | VInt int
  | VFloat pyfloat
  | VStr string
  | VList "pyval list"
  | VDict "(string \<times> pyval) list"
  | VRich richtext

type_synonym pydict = "(string \<times> pyval) list"

datatype error = TypeError | AttributeError | RuntimeError | DanglingRef

text \<open>\<^verbatim>\<open>isinstance(v, str)\<close> and \<^verbatim>\<open>isinstance(v, list)\<close>.\<close>

fun isinstance_str :: "pyval \<Rightarrow> bool" where
  "isinstance_str (VStr s) = True"
| "isinstance_str _ = False"

fun isinstance_list :: "pyval \<Rightarrow> bool" where
  "isinstance_list (VList xs) = True"
| "isinstance_list _ = False"

text \<open>
  The translator as the rewriter calls it, on a value of any type: \<^verbatim>\<open>re.finditer\<close>
  raises \<^verbatim>\<open>TypeError\<close> on an argument that is not a string.
\<close>

fun attempt_to_parse_markdown_py :: "pyval \<Rightarrow> error + pyval" where
  "attempt_to_parse_markdown_py (VStr s) = Inr (VRich (attempt_to_parse_markdown s))"
| "attempt_to_parse_markdown_py _ = Inl TypeError"

text \<open>
  \<^verbatim>\<open>for item in value\<close>: the elements that the loop visits. A list gives its
  elements, a string its characters, a \<^verbatim>\<open>dict\<close> its keys; the other values are not
  iterable.
\<close>

fun iterate :: "pyval \<Rightarrow> error + pyval list" where
  "iterate (VList xs) = Inr xs"
| "iterate (VStr s) = Inr (map (\<lambda>c. VStr [c]) s)"
| "iterate (VDict d) = Inr (map (\<lambda>kv. VStr (fst kv)) d)"
| "iterate _ = Inl TypeError"

text \<open>\<^verbatim>\<open>d[k] = v\<close>: an old key keeps its place, a new key goes to the end.\<close>

fun dict_set :: "('k \<times> 'v) list \<Rightarrow> 'k \<Rightarrow> 'v \<Rightarrow> ('k \<times> 'v) list" where
  "dict_set [] k v = [(k, v)]"
| "dict_set ((k', v') # d) k v =
     (if k' = k then (k', v) # d else (k', v') # dict_set d k v)"

definition keys :: "pydict \<Rightarrow> string list" where
  "keys d = map fst d"

definition dict_get :: "pydict \<Rightarrow> string \<Rightarrow> pyval option" where
  "dict_get d k = map_of d k"

section \<open>The context rewriter\<close>

definition list_fields :: "string list" where
  "list_fields =
     [''SUMMARY'', ''RESPONSIBILITIES_CH'', ''RESPONSIBILITIES_SS'', ''RESPONSIBILITIES_SM'']"

definition scalar_fields :: "string list" where
  "scalar_fields =
     [''ENGAGEMENT_SUMMARY_CH'', ''ENGAGEMENT_SUMMARY_SS'', ''ENGAGEMENT_SUMMARY_SM'']"

text \<open>The inner loop \<^verbatim>\<open>for item in value\<close>, on \<^verbatim>\<open>processed_list\<close>.\<close>

fun for_items :: "pyval list \<Rightarrow> pyval list \<Rightarrow> error + pyval list" where
  "for_items [] processed_list = Inr processed_list"
| "for_items (item # items) processed_list =
     (if isinstance_str item then
        (case attempt_to_parse_markdown_py item of
           Inl e \<Rightarrow> Inl e
         | Inr rt \<Rightarrow> for_items items (processed_list @ [rt]))
      else for_items items (processed_list @ [item]))"

text \<open>
  The outer loop \<^verbatim>\<open>for key, value in context_data.items()\<close>, on
  \<^verbatim>\<open>processed_context\<close>.
\<close>

fun for_entries :: "pydict \<Rightarrow> pydict \<Rightarrow> error + pydict" where
  "for_entries [] processed_context = Inr processed_context"
| "for_entries ((key, value) # entries) processed_context =
     (if key \<in> set list_fields \<and> isinstance_list value then
        (case iterate value of
           Inl e \<Rightarrow> Inl e
         | Inr items \<Rightarrow>
             (case for_items items [] of
                Inl e \<Rightarrow> Inl e
              | Inr processed_list \<Rightarrow>
                  for_entries entries (dict_set processed_context key (VList processed_list))))
      else if key \<in> set scalar_fields \<and> isinstance_str value then
        (case attempt_to_parse_markdown_py value of
           Inl e \<Rightarrow> Inl e
         | Inr rt \<Rightarrow> for_entries entries (dict_set processed_context key rt))
      else for_entries entries (dict_set processed_context key value))"

definition process_context_for_richtext :: "pydict \<Rightarrow> error + pydict" where
  "process_context_for_richtext context_data = for_entries context_data []"

text \<open>
  What the rewriter does to one element of a list field and to the value of one
  field, read off the loops above; the lemmas below prove that the loops compute
  exactly this.
\<close>

fun rewrite_item :: "pyval \<Rightarrow> pyval" where
  "rewrite_item (VStr s) = VRich (attempt_to_parse_markdown s)"
| "rewrite_item v = v"

fun rewrite_value :: "string \<Rightarrow> pyval \<Rightarrow> pyval" where
  "rewrite_value k (VList xs) =
     (if k \<in> set list_fields then VList (map rewrite_item xs) else VList xs)"
| "rewrite_value k (VStr s) =
     (if k \<in> set scalar_fields then VRich (attempt_to_parse_markdown s) else VStr s)"
| "rewrite_value k v = v"

section \<open>The rewriter on a heap of objects\<close>

text \<open>
  Python values are objects on a heap and variables hold references to them. For the
  question whether the rewriter writes to an object of its caller, the heap is the list
  of all objects, a reference is an index of this list, and a new object is put at the
  end. A list object holds the references of its elements and a \<^verbatim>\<open>dict\<close> object the
  references of its values.
\<close>

type_synonym ref = nat

datatype obj =
    ONone
  | OBool bool
  | OInt int
  | OFloat pyfloat
  | OStr string
  | OList "ref list"
  | ODict "(string \<times> ref) list"
  | ORich richtext

type_synonym heap = "obj list"

text \<open>
  \<open>deref\<close> reads an object. A reference beyond the heap cannot arise in Python; the
  model answers \<open>None\<close> there and the loops stop with \<open>DanglingRef\<close>.
\<close>

definition deref :: "heap \<Rightarrow> ref \<Rightarrow> obj option" where
  "deref h r = (if r < length h then Some (h ! r) else None)"

definition alloc :: "heap \<Rightarrow> obj \<Rightarrow> ref \<times> heap" where
  "alloc h ob = (length h, h @ [ob])"

fun isinstance_str_o :: "obj \<Rightarrow> bool" where
  "isinstance_str_o (OStr s) = True"
| "isinstance_str_o _ = False"

fun isinstance_list_o :: "obj \<Rightarrow> bool" where
  "isinstance_list_o (OList xs) = True"
| "isinstance_list_o _ = False"

text \<open>\<^verbatim>\<open>l.append(r)\<close> and \<^verbatim>\<open>d[k] = r\<close> write to the object in place.\<close>

definition list_append :: "heap \<Rightarrow> ref \<Rightarrow> ref \<Rightarrow> error + heap" where
  "list_append h l r =
     (case deref h l of
        Some (OList xs) \<Rightarrow> Inr (h[l := OList (xs @ [r])])
      | Some _ \<Rightarrow> Inl AttributeError
      | None \<Rightarrow> Inl DanglingRef)"

definition dict_setitem :: "heap \<Rightarrow> ref \<Rightarrow> string \<Rightarrow> ref \<Rightarrow> error + heap" where
  "dict_setitem h d k r =
     (case deref h d of
        Some (ODict es) \<Rightarrow> Inr (h[d := ODict (dict_set es k r)])
      | Some _ \<Rightarrow> Inl TypeError
      | None \<Rightarrow> Inl DanglingRef)"

text \<open>The translator on the heap: it reads the string and makes a new \<^verbatim>\<open>RichText\<close>.\<close>

definition attempt_to_parse_markdown_h :: "heap \<Rightarrow> ref \<Rightarrow> error + ref \<times> heap" where
  "attempt_to_parse_markdown_h h text_value =
     (case deref h text_value of
        Some (OStr s) \<Rightarrow> Inr (alloc h (ORich (attempt_to_parse_markdown s)))
      | Some _ \<Rightarrow> Inl TypeError
      | None \<Rightarrow> Inl DanglingRef)"

text \<open>
  \<^verbatim>\<open>for item in value\<close> reads the list object again at every step, at the index
  \<open>i\<close>, as the list iterator of Python does: a loop that appended to the list it
  walks would not end, and the result \<open>None\<close> stands for that.
\<close>

partial_function (option) for_item_h ::
  "heap \<Rightarrow> ref \<Rightarrow> ref \<Rightarrow> nat \<Rightarrow> (error + heap) option" where
  "for_item_h h val processed_list i =
     (case deref h val of
        Some (OList items) \<Rightarrow>
          if i < length items then
            (let item = items ! i in
             case deref h item of
               None \<Rightarrow> Some (Inl DanglingRef)
             | Some ob \<Rightarrow>
                 if isinstance_str_o ob then
                   (case attempt_to_parse_markdown_h h item of
                      Inl e \<Rightarrow> Some (Inl e)
                    | Inr (rt, h1) \<Rightarrow>
                        (case list_append h1 processed_list rt of
                           Inl e \<Rightarrow> Some (Inl e)
                         | Inr h2 \<Rightarrow> for_item_h h2 val processed_list (Suc i)))
                 else
                   (case list_append h processed_list item of
                      Inl e \<Rightarrow> Some (Inl e)
                    | Inr h2 \<Rightarrow> for_item_h h2 val processed_list (Suc i)))
          else Some (Inr h)
      | Some _ \<Rightarrow> Some (Inl TypeError)
      | None \<Rightarrow> Some (Inl DanglingRef))"

text \<open>
  \<^verbatim>\<open>for key, value in context_data.items()\<close> walks the \<^verbatim>\<open>dict\<close> object itself and
  raises \<^verbatim>\<open>RuntimeError\<close> when its size has changed since the loop began (\<open>n\<close> is the
  size at the start).
\<close>

partial_function (option) for_entry_h ::
  "heap \<Rightarrow> ref \<Rightarrow> ref \<Rightarrow> nat \<Rightarrow> nat \<Rightarrow> (error + heap) option" where
  "for_entry_h h context_data processed_context n i =
     (case deref h context_data of
        Some (ODict entries) \<Rightarrow>
          if length entries \<noteq> n then Some (Inl RuntimeError)
          else if i < length entries then
            (case entries ! i of (key, val) \<Rightarrow>
               (case deref h val of
                  None \<Rightarrow> Some (Inl DanglingRef)
                | Some ob \<Rightarrow>
                    if key \<in> set list_fields \<and> isinstance_list_o ob then
                      (case alloc h (OList []) of (processed_list, h1) \<Rightarrow>
                         (case for_item_h h1 val processed_list 0 of
                            None \<Rightarrow> None
                          | Some (Inl e) \<Rightarrow> Some (Inl e)
                          | Some (Inr h2) \<Rightarrow>
                              (case dict_setitem h2 processed_context key processed_list of
                                 Inl e \<Rightarrow> Some (Inl e)
                               | Inr h3 \<Rightarrow>
                                   for_entry_h h3 context_data processed_context n (Suc i))))
                    else if key \<in> set scalar_fields \<and> isinstance_str_o ob then
                      (case attempt_to_parse_markdown_h h val of
                         Inl e \<Rightarrow> Some (Inl e)
                       | Inr (rt, h1) \<Rightarrow>
                           (case dict_setitem h1 processed_context key rt of
                              Inl e \<Rightarrow> Some (Inl e)
                            | Inr h2 \<Rightarrow>
                                for_entry_h h2 context_data processed_context n (Suc i)))
                    else
                      (case dict_setitem h processed_context key val of
                         Inl e \<Rightarrow> Some (Inl e)
                       | Inr h2 \<Rightarrow> for_entry_h h2 context_data processed_context n (Suc i))))
          else Some (Inr h)
      | Some _ \<Rightarrow> Some (Inl AttributeError)
      | None \<Rightarrow> Some (Inl DanglingRef))"

definition process_context_for_richtext_h ::
  "heap \<Rightarrow> ref \<Rightarrow> (error + ref \<times> heap) option" where
  "process_context_for_richtext_h h context_data =
     (case alloc h (ODict []) of (processed_context, h1) \<Rightarrow>
        (case deref h1 context_data of
           Some (ODict entries) \<Rightarrow>
             (case for_entry_h h1 context_data processed_context (length entries) 0 of
                None \<Rightarrow> None
              | Some (Inl e) \<Rightarrow> Some (Inl e)
              | Some (Inr h2) \<Rightarrow> Some (Inr (processed_context, h2)))
         | Some _ \<Rightarrow> Some (Inl AttributeError)
         | None \<Rightarrow> Some (Inl DanglingRef)))"

text \<open>A heap is well formed when every reference in it points into it.\<close>

fun refs_of :: "obj \<Rightarrow> ref list" where
  "refs_of (OList rs) = rs"
| "refs_of (ODict es) = map snd es"
| "refs_of _ = []"

definition wf_heap :: "heap \<Rightarrow> bool" where
  "wf_heap h = list_all (\<lambda>ob. list_all (\<lambda>r. r < length h) (refs_of ob)) h"

text \<open>The heap after one step of the inner loop; \<open>acc\<close> is \<^verbatim>\<open>processed_list\<close> so far.\<close>

definition item_step :: "heap \<Rightarrow> ref \<Rightarrow> ref \<Rightarrow> ref list \<Rightarrow> heap" where
  "item_step h pl item acc =
     (case h ! item of
        OStr s \<Rightarrow> (h @ [ORich (attempt_to_parse_markdown s)])[pl := OList (acc @ [length h])]
      | _ \<Rightarrow> h[pl := OList (acc @ [item])])"

text \<open>
  An entry of the output is fine when it does not store, under a list field, a list
  object that existed before the call (the first \<open>n0\<close> objects).
\<close>

definition fresh_or_kept :: "heap \<Rightarrow> nat \<Rightarrow> string \<times> ref \<Rightarrow> bool" where
  "fresh_or_kept h n0 e =
     (fst e \<in> set list_fields \<and> snd e < n0 \<longrightarrow> \<not> isinstance_list_o (h ! snd e))"

section \<open>Markup pairs as the specification words them\<close>

text \<open>
  The specification describes a bold pair as two asterisks, then the shortest
  possible run of characters, then two asterisks, found from left to right without
  overlap. The definitions below follow these words and not the code; the class of
  characters allowed between the delimiters is the parameter \<open>P\<close>, which is
  \<open>\<lambda>_. True\<close> for "any characters".
\<close>

definition delim :: string where
  "delim = [star, star]"

text \<open>
  \<open>pair_at P s\<close>: a pair stands at the very start of \<open>s\<close>; the result is its inner
  text and the text after its closing delimiter.
\<close>

definition pair_at :: "(char \<Rightarrow> bool) \<Rightarrow> string \<Rightarrow> (string \<times> string) option" where
  "pair_at P s =
     (if take 2 s = delim then
        (case find (\<lambda>n. list_all P (take n (drop 2 s)) \<and> take 2 (drop (2 + n) s) = delim)
                [0..<length s] of
           None \<Rightarrow> None
         | Some n \<Rightarrow> Some (take n (drop 2 s), drop (n + 4) s))
      else None)"

function strip_pairs :: "(char \<Rightarrow> bool) \<Rightarrow> string \<Rightarrow> string" where
  "strip_pairs P [] = []"
| "strip_pairs P (c # cs) =
     (case pair_at P (c # cs) of
        None \<Rightarrow> c # strip_pairs P cs
      | Some (inner, rest) \<Rightarrow> inner @ strip_pairs P rest)"
  by pat_completeness auto
termination
  by (relation "measure (\<lambda>(P, s). length s)")
     (auto simp: pair_at_def split: if_splits option.splits)

text \<open>\<open>has_pair P s\<close>: some pair stands somewhere in \<open>s\<close>.\<close>

definition has_pair :: "(char \<Rightarrow> bool) \<Rightarrow> string \<Rightarrow> bool" where
  "has_pair P s = list_ex (\<lambda>i. pair_at P (drop i s) \<noteq> None) [0..<length s]"

text \<open>\<open>has_delim s\<close>: two asterisks in a row stand somewhere in \<open>s\<close>.\<close>

fun has_delim :: "string \<Rightarrow> bool" where
  "has_delim (a # b # cs) = ((a = star \<and> b = star) \<or> has_delim (b # cs))"
| "has_delim _ = False"

definition ends_with_star :: "string \<Rightarrow> bool" where
  "ends_with_star s = (s \<noteq> [] \<and> last s = star)"

text \<open>
  The runs that the specification promises for an input \<^verbatim>\<open>A**B**C\<close>: a plain run
  for \<open>A\<close>, a bold run for \<open>B\<close> and a plain run for \<open>C\<close>, the plain ones left out
  when their text is empty.
\<close>

definition three_runs :: "string \<Rightarrow> string \<Rightarrow> string \<Rightarrow> richtext" where
  "three_runs A B C =
     (if A = [] then [] else [plain_run A]) @ [bold_run B]
       @ (if C = [] then [] else [plain_run C])"

section \<open>The search of the code finds the pairs of the specification\<close>

lemma starts_delim_take: "starts_delim s \<longleftrightarrow> take 2 s = delim"
  by (cases s rule: starts_delim.cases) (auto simp: delim_def)

lemma lazy_group_SomeD:
  "lazy_group b = Some g \<Longrightarrow>
     g = take (length g) b \<and> starts_delim (drop (length g) b) \<and> list_all dot g
     \<and> (\<forall>j<length g. \<not> starts_delim (drop j b))"
proof (induction b arbitrary: g)
  case Nil
  then show ?case by simp
next
  case (Cons c cs)
  show ?case
  proof (cases "starts_delim (c # cs)")
    case True
    with Cons.prems show ?thesis by simp
  next
    case False
    with Cons.prems obtain g' where g': "lazy_group cs = Some g'" "g = c # g'" "dot c"
      by (auto split: if_splits)
    from Cons.IH[OF g'(1)] have ih: "g' = take (length g') cs" "starts_delim (drop (length g') cs)"
      "list_all dot g'" "\<forall>j<length g'. \<not> starts_delim (drop j cs)" by auto
    have "\<forall>j<length g. \<not> starts_delim (drop j (c # cs))"
    proof (intro allI impI)
      fix j assume "j < length g"
      then show "\<not> starts_delim (drop j (c # cs))"
        using False ih(4) g'(2) by (cases j) auto
    qed
    with ih g' show ?thesis by auto
  qed
qed

lemma lazy_group_NoneD:
  "lazy_group b = None \<Longrightarrow> list_all dot (take n b) \<Longrightarrow> \<not> starts_delim (drop n b)"
proof (induction b arbitrary: n)
  case Nil
  then show ?case by simp
next
  case (Cons c cs)
  then show ?case by (cases n) (auto split: if_splits)
qed


lemma starts_delim_length: "starts_delim s \<Longrightarrow> 2 \<le> length s"
  by (cases s rule: starts_delim.cases) auto

lemma match_at_Some_pair:
  assumes "match_at s = Some g"
  shows "pair_at dot s = Some (g, drop (4 + length g) s)"
proof -
  from assms have sd: "starts_delim s" and lg: "lazy_group (drop 2 s) = Some g"
    by (auto simp: match_at_def split: if_splits)
  note D = lazy_group_SomeD[OF lg]
  let ?Q = "\<lambda>n. list_all dot (take n (drop 2 s)) \<and> take 2 (drop (2 + n) s) = delim"
  have q: "?Q (length g)"
    using D by (simp add: starts_delim_take add.commute)
  have lt: "length g < length s"
    using D starts_delim_length[of "drop (length g) (drop 2 s)"] by simp
  have least: "\<forall>j<length g. \<not> ?Q j"
    using D by (simp add: starts_delim_take add.commute)
  have "find ?Q [0..<length s] = Some (length g)"
    unfolding find_Some_iff
    by (rule exI[of _ "length g"]) (use q lt least in auto)
  moreover have "take (length g) (drop 2 s) = g" using D by simp
  ultimately show ?thesis
    using sd by (simp add: pair_at_def starts_delim_take add.commute)
qed

lemma match_at_None_pair:
  assumes "match_at s = None"
  shows "pair_at dot s = None"
proof (cases "starts_delim s")
  case False
  then show ?thesis by (simp add: pair_at_def starts_delim_take)
next
  case True
  with assms have lg: "lazy_group (drop 2 s) = None"
    by (simp add: match_at_def)
  have "find (\<lambda>n. list_all dot (take n (drop 2 s)) \<and> take 2 (drop (2 + n) s) = delim)
          [0..<length s] = None"
    unfolding find_None_iff
    using lazy_group_NoneD[OF lg] by (auto simp: starts_delim_take add.commute)
  then show ?thesis by (simp add: pair_at_def)
qed

lemma match_at_length:
  "match_at s = Some g \<Longrightarrow> 4 + length g \<le> length s"
proof -
  assume a: "match_at s = Some g"
  then have sd: "starts_delim s" and lg: "lazy_group (drop 2 s) = Some g"
    by (auto simp: match_at_def split: if_splits)
  from lazy_group_SomeD[OF lg] have "starts_delim (drop (length g) (drop 2 s))" by simp
  from starts_delim_length[OF this] show ?thesis by simp
qed

lemma match_at_group:
  "match_at s = Some g \<Longrightarrow> g = take (length g) (drop 2 s)"
  using lazy_group_SomeD[of "drop 2 s" g] by (auto simp: match_at_def split: if_splits)

text \<open>What the translator does after the search, on any list of matches.\<close>

lemma text_of_add: "text_of (add rt t b) = text_of rt @ t"
  by (simp add: text_of_def add_def)

lemma slice_snoc:
  "last_index \<le> off \<Longrightarrow> off < length s \<Longrightarrow>
   slice s last_index (Suc off) = slice s last_index off @ [s ! off]"
  by (simp add: slice_def Suc_diff_le take_Suc_conv_app_nth)

lemma drop_eq_ConsD:
  assumes "c # cs = drop off s"
  shows "off < length s \<and> c = s ! off \<and> cs = drop (Suc off) s"
proof -
  have lt: "off < length s"
    using assms by (cases "off < length s") auto
  from Cons_nth_drop_Suc[OF lt] assms have "c # cs = s ! off # drop (Suc off) s"
    by simp
  then show ?thesis using lt by simp
qed


lemma scan_text:
  "t = drop off s \<Longrightarrow> off \<le> length s \<Longrightarrow> last_index \<le> off \<Longrightarrow>
   text_of (finish s (for_matches s (scan off t) (last_index, rt)))
     = text_of rt @ slice s last_index off @ strip_pairs dot t"
proof (induction off t arbitrary: last_index rt rule: scan.induct)
  case (1 off)
  then have "off = length s" by simp
  with 1 show ?case
    by (auto simp: finish_def text_of_add slice_from_def slice_def)
next
  case (2 off c cs)
  from drop_eq_ConsD[OF "2.prems"(1)]
  have lt: "off < length s" and c: "c = s ! off" and cs: "cs = drop (Suc off) s"
    by auto
  show ?case
  proof (cases "match_at (c # cs)")
    case None
    have sl: "slice s last_index (Suc off) = slice s last_index off @ [c]"
      using slice_snoc[OF "2.prems"(3) lt] c by simp
    have "text_of (finish s (for_matches s (scan (Suc off) cs) (last_index, rt)))
            = text_of rt @ slice s last_index (Suc off) @ strip_pairs dot cs"
      using "2.IH"(1)[OF None cs] lt "2.prems"(3) by simp
    then show ?thesis using None sl by (simp add: match_at_None_pair)
  next
    case (Some g)
    let ?e = "off + (4 + length g)"
    let ?rt1 = "if off > last_index then add rt (slice s last_index off) False else rt"
    let ?rt2 = "if g \<noteq> [] then add ?rt1 g True else ?rt1"
    have len: "4 + length g \<le> length (c # cs)" by (rule match_at_length[OF Some])
    have e_le: "?e \<le> length s"
    proof -
      have "length (c # cs) = length s - off"
        by (simp only: "2.prems"(1) length_drop)
      with len lt show ?thesis by arith
    qed
    have rest: "drop (4 + length g) (c # cs) = drop ?e s"
      by (simp only: "2.prems"(1) drop_drop add.commute)
    have t1: "text_of ?rt1 = text_of rt @ slice s last_index off"
      using "2.prems"(3) by (auto simp: text_of_add slice_def)
    have t2: "text_of ?rt2 = text_of rt @ slice s last_index off @ g"
      using t1 by (auto simp: text_of_add)
    have ih: "text_of (finish s (for_matches s (scan ?e (drop (4 + length g) (c # cs))) (?e, ?rt2)))
            = text_of ?rt2 @ slice s ?e ?e @ strip_pairs dot (drop (4 + length g) (c # cs))"
      by (rule "2.IH"(2)[OF Some rest e_le order_refl])
    have sc: "scan off (c # cs) = \<lparr>m_start = off, m_end = ?e, m_group = g\<rparr>
                # scan ?e (drop (4 + length g) (c # cs))"
      using Some by simp
    have fm: "for_matches s (scan off (c # cs)) (last_index, rt)
               = for_matches s (scan ?e (drop (4 + length g) (c # cs))) (?e, ?rt2)"
      unfolding sc by (simp add: Let_def)
    have sp: "strip_pairs dot (c # cs) = g @ strip_pairs dot (drop (4 + length g) (c # cs))"
      using match_at_Some_pair[OF Some] by simp
    show ?thesis
      unfolding fm ih sp t2 by (simp add: slice_def)
  qed
qed

lemma has_pair_iff: "has_pair P s \<longleftrightarrow> (\<exists>i<length s. pair_at P (drop i s) \<noteq> None)"
  unfolding has_pair_def list_ex_iff by (simp only: set_upt atLeastLessThan_iff Bex_def) blast

lemma pair_at_mono:
  assumes "pair_at dot s \<noteq> None"
  shows "pair_at (\<lambda>_. True) s \<noteq> None"
proof -
  let ?Q = "\<lambda>P n. list_all P (take n (drop 2 s)) \<and> take 2 (drop (2 + n) s) = delim"
  from assms have d: "take 2 s = delim" and f: "find (?Q dot) [0..<length s] \<noteq> None"
    by (auto simp: pair_at_def split: if_splits option.splits)
  from f obtain n where "n < length s" "?Q dot n"
    by (auto simp: find_None_iff)
  then have "n \<in> set [0..<length s] \<and> ?Q (\<lambda>_. True) n"
    by (simp add: list_all_iff)
  then have "find (?Q (\<lambda>_. True)) [0..<length s] \<noteq> None"
    unfolding find_None_iff by blast
  with d show ?thesis
    by (auto simp: pair_at_def split: option.splits)
qed

lemma scan_Nil:
  "\<forall>i<length t. match_at (drop i t) = None \<Longrightarrow> scan off t = []"
proof (induction t arbitrary: off)
  case Nil
  then show ?case by simp
next
  case (Cons c cs)
  have "match_at (c # cs) = None" using Cons.prems[rule_format, of 0] by simp
  moreover have "\<forall>i<length cs. match_at (drop i cs) = None"
    using Cons.prems by (metis Suc_less_eq drop_Suc_Cons length_Cons)
  ultimately show ?case using Cons.IH by simp
qed

lemma no_pair_scan_Nil:
  assumes "\<not> has_pair dot t"
  shows "scan off t = []"
proof (rule scan_Nil, intro allI impI)
  fix i assume "i < length t"
  with assms have "pair_at dot (drop i t) = None" unfolding has_pair_iff by blast
  then show "match_at (drop i t) = None"
    using match_at_Some_pair[of "drop i t"] by (cases "match_at (drop i t)") auto
qed

lemma scan_skip_prefix:
  "\<not> has_delim A \<Longrightarrow> \<not> ends_with_star A \<Longrightarrow>
   scan off (A @ star # star # r) = scan (off + length A) (star # star # r)"
proof (induction A arbitrary: off)
  case Nil
  then show ?case by simp
next
  case (Cons a A')
  have nm: "match_at ((a # A') @ star # star # r) = None"
  proof (cases A')
    case Nil
    with Cons.prems(2) have "a \<noteq> star" by (simp add: ends_with_star_def)
    with Nil show ?thesis by (simp add: match_at_def)
  next
    case (Cons b A'')
    with Cons.prems(1) have "\<not> (a = star \<and> b = star)" by auto
    with Cons show ?thesis by (auto simp: match_at_def)
  qed
  have 1: "\<not> has_delim A'" using Cons.prems(1) by (cases A') auto
  have 2: "\<not> ends_with_star A'" using Cons.prems(2) by (cases A') (auto simp: ends_with_star_def)
  show ?case using nm Cons.IH[OF 1 2, of "Suc off"] by simp
qed

lemma lazy_group_inner:
  "\<not> has_delim B \<Longrightarrow> \<not> ends_with_star B \<Longrightarrow> list_all dot B \<Longrightarrow>
   lazy_group (B @ star # star # r) = Some B"
proof (induction B)
  case Nil
  then show ?case by simp
next
  case (Cons b B')
  have ns: "\<not> starts_delim ((b # B') @ star # star # r)"
  proof (cases B')
    case Nil
    with Cons.prems(2) have "b \<noteq> star" by (simp add: ends_with_star_def)
    with Nil show ?thesis by simp
  next
    case (Cons b' B'')
    with Cons.prems(1) have "\<not> (b = star \<and> b' = star)" by auto
    with Cons show ?thesis by simp
  qed
  have 1: "\<not> has_delim B'" using Cons.prems(1) by (cases B') auto
  have 2: "\<not> ends_with_star B'" using Cons.prems(2) by (cases B') (auto simp: ends_with_star_def)
  have 3: "list_all dot B'" "dot b" using Cons.prems(3) by auto
  show ?case using ns 3 Cons.IH[OF 1 2 3(1)] by simp
qed

lemma drop_pair:
  "drop (4 + length B) (star # star # B @ star # star # C) = C"
proof -
  have d: "\<And>xs ys :: string. drop (length xs) (xs @ ys) = ys" by simp
  have e1: "star # star # B @ star # star # C = (star # star # B @ [star, star]) @ C"
    by simp
  have e2: "4 + length B = length (star # star # B @ [star, star])" by simp
  show ?thesis by (subst e1, subst e2, rule d)
qed

lemma match_at_inner:
  "\<not> has_delim B \<Longrightarrow> \<not> ends_with_star B \<Longrightarrow> list_all dot B \<Longrightarrow>
   match_at (delim @ B @ delim @ C) = Some B"
  using lazy_group_inner[of B C] by (simp add: match_at_def delim_def)

lemma finditer_single_pair:
  assumes A: "\<not> has_delim A" "\<not> ends_with_star A"
    and B: "\<not> has_delim B" "\<not> ends_with_star B" "list_all dot B"
    and C: "\<not> has_pair dot C"
  shows "finditer (A @ delim @ B @ delim @ C)
           = [\<lparr>m_start = length A, m_end = length A + (4 + length B), m_group = B\<rparr>]"
proof -
  let ?r = "B @ delim @ C"
  have "finditer (A @ delim @ B @ delim @ C) = scan 0 (A @ star # star # ?r)"
    by (simp add: finditer_def delim_def)
  also have "\<dots> = scan (length A) (star # star # ?r)"
    using scan_skip_prefix[OF A, of 0 ?r] by simp
  also have "\<dots> = \<lparr>m_start = length A, m_end = length A + (4 + length B), m_group = B\<rparr>
                     # scan (length A + (4 + length B)) (drop (4 + length B) (star # star # ?r))"
    using match_at_inner[OF B, of C] by (simp add: delim_def)
  also have "drop (4 + length B) (star # star # ?r) = C"
    using drop_pair[of B C] by (simp add: delim_def)
  also have "scan (length A + (4 + length B)) C = []"
    by (rule no_pair_scan_Nil[OF C])
  finally show ?thesis .
qed

section \<open>Properties of the translator\<close>

text \<open>
  C5. The input \<^verbatim>\<open>****\<close>, a delimiter pair around nothing, gives no run at all: the
  match is consumed and no bold run of length zero is added.
\<close>

theorem four_stars_no_runs:
  "attempt_to_parse_markdown ''****'' = []"
  by (simp add: attempt_to_parse_markdown_def finditer_def match_at_def star_def add_def)

text \<open>
  C1, as the specification words it: the texts of the runs, put together in order, are
  the input with every pair \<^verbatim>\<open>**...**\<close> replaced by its inner text, a pair being
  two asterisks, the shortest run of any characters and two asterisks. This fails
  where the inner text holds a line feed: the pattern of the code has no flag, its
  dot stops at a line feed, and the input comes back whole, delimiters included.
\<close>

theorem runs_text_multiline_pair_counterexample:
  "text_of (attempt_to_parse_markdown ''**a\<newline>b**'')
     \<noteq> strip_pairs (\<lambda>_. True) ''**a\<newline>b**''"
  by (simp add: attempt_to_parse_markdown_def finditer_def match_at_def star_def add_def
      text_of_def pair_at_def delim_def dot_def newline_def)

text \<open>
  C1, amended: for every input, the texts of the runs, put together in order, are the
  input with every pair replaced by its inner text, where a pair is two asterisks,
  the shortest run of characters other than the line feed, and two asterisks, taken
  from left to right without overlap.
\<close>

theorem runs_text_is_stripped_input:
  "text_of (attempt_to_parse_markdown s) = strip_pairs dot s"
proof -
  have "text_of (attempt_to_parse_markdown s)
          = text_of (finish s (for_matches s (scan 0 s) (0, [])))"
    by (simp add: attempt_to_parse_markdown_def finditer_def finish_def Let_def text_of_add
        slice_from_def text_of_def add_def)
  also have "\<dots> = text_of [] @ slice s 0 0 @ strip_pairs dot s"
    by (rule scan_text) simp_all
  also have "\<dots> = strip_pairs dot s"
    by (simp add: slice_def text_of_def)
  finally show ?thesis .
qed

text \<open>
  C4. An input that holds no bold pair (two asterisks, any characters, two
  asterisks) gives exactly one run, not bold, whose text is the input.
\<close>

theorem no_pair_single_plain_run:
  assumes "\<not> has_pair (\<lambda>_. True) s"
  shows "attempt_to_parse_markdown s = [plain_run s]"
proof -
  have "\<not> has_pair dot s"
    using assms pair_at_mono unfolding has_pair_iff by blast
  then have "finditer s = []"
    unfolding finditer_def by (rule no_pair_scan_Nil)
  then show ?thesis
    by (simp add: attempt_to_parse_markdown_def add_def plain_run_def)
qed

theorem no_pair_single_plain_run_witness:
  "\<not> has_pair (\<lambda>_. True) ''Led *team*'' \<and>
   attempt_to_parse_markdown ''Led *team*'' = [plain_run ''Led *team*'']"
proof -
  have h: "\<not> has_pair (\<lambda>_. True) ''Led *team*''"
    by (simp add: has_pair_def pair_at_def delim_def star_def upt_rec)
  show ?thesis using h no_pair_single_plain_run[OF h] by simp
qed

text \<open>
  C8, as stated: the empty input gives no run. The code finds no match in the empty
  text and takes the branch that adds the whole input as one run, so one run comes
  back, with empty text.
\<close>

theorem empty_input_zero_runs_counterexample:
  "attempt_to_parse_markdown [] \<noteq> []"
  by (simp add: attempt_to_parse_markdown_def finditer_def add_def)

text \<open>
  C8, amended: the empty input gives exactly one run, not bold, with empty text.
\<close>

theorem empty_input_one_empty_run:
  "attempt_to_parse_markdown [] = [plain_run []]"
  by (simp add: attempt_to_parse_markdown_def finditer_def add_def plain_run_def)

text \<open>
  C2, as stated: every input \<^verbatim>\<open>A**B**C\<close> with \<open>B\<close> not empty and without \<^verbatim>\<open>**\<close>
  gives the plain run of \<open>A\<close>, the bold run of \<open>B\<close> and the plain run of \<open>C\<close>. The
  search of the code is leftmost and shortest and its dot stops at a line feed, so
  the claim fails in five ways, one input for each: \<open>B\<close> holds a line feed; \<open>B\<close>
  ends with an asterisk; \<open>A\<close> ends with an asterisk; \<open>A\<close> holds a delimiter; \<open>C\<close>
  holds a pair.
\<close>

theorem single_pair_runs_counterexample:
  "(''a\<newline>b'' \<noteq> [] \<and> \<not> has_delim ''a\<newline>b'' \<and>
      attempt_to_parse_markdown ([] @ delim @ ''a\<newline>b'' @ delim @ [])
        \<noteq> three_runs [] ''a\<newline>b'' []) \<and>
   (''a*'' \<noteq> [] \<and> \<not> has_delim ''a*'' \<and>
      attempt_to_parse_markdown ([] @ delim @ ''a*'' @ delim @ []) \<noteq> three_runs [] ''a*'' []) \<and>
   (''b'' \<noteq> [] \<and> \<not> has_delim ''b'' \<and>
      attempt_to_parse_markdown (''*'' @ delim @ ''b'' @ delim @ []) \<noteq> three_runs ''*'' ''b'' []) \<and>
   (''y'' \<noteq> [] \<and> \<not> has_delim ''y'' \<and>
      attempt_to_parse_markdown (''**x'' @ delim @ ''y'' @ delim @ [])
        \<noteq> three_runs ''**x'' ''y'' []) \<and>
   (''a'' \<noteq> [] \<and> \<not> has_delim ''a'' \<and>
      attempt_to_parse_markdown ([] @ delim @ ''a'' @ delim @ ''**b**'')
        \<noteq> three_runs [] ''a'' ''**b**'')"
proof -
  note defs = attempt_to_parse_markdown_def finditer_def match_at_def star_def add_def
      delim_def dot_def newline_def plain_run_def bold_run_def slice_def slice_from_def
  have 1: "attempt_to_parse_markdown ([] @ delim @ ''a\<newline>b'' @ delim @ [])
             = [plain_run ''**a\<newline>b**'']"
    by (simp add: defs)
  have 2: "attempt_to_parse_markdown ([] @ delim @ ''a*'' @ delim @ [])
             = [bold_run ''a'', plain_run ''*'']"
    by (simp add: defs)
  have 3: "attempt_to_parse_markdown (''*'' @ delim @ ''b'' @ delim @ []) = [bold_run ''*b'']"
    by (simp add: defs)
  have 4: "attempt_to_parse_markdown (''**x'' @ delim @ ''y'' @ delim @ [])
             = [bold_run ''x'', plain_run ''y**'']"
    by (simp add: defs)
  have 5: "attempt_to_parse_markdown ([] @ delim @ ''a'' @ delim @ ''**b**'')
             = [bold_run ''a'', bold_run ''b'']"
    by (simp add: defs)
  have h: "\<not> has_delim ''a\<newline>b''" "\<not> has_delim ''a*''" "\<not> has_delim ''b''"
    "\<not> has_delim ''y''" "\<not> has_delim ''a''"
    by (simp_all add: star_def)
  have n1: "[plain_run ''**a\<newline>b**''] \<noteq> three_runs [] ''a\<newline>b'' []"
    by (simp add: three_runs_def plain_run_def bold_run_def)
  have n2: "[bold_run ''a'', plain_run ''*''] \<noteq> three_runs [] ''a*'' []"
    by (simp add: three_runs_def plain_run_def bold_run_def)
  have n3: "[bold_run ''*b''] \<noteq> three_runs ''*'' ''b'' []"
    by (simp add: three_runs_def plain_run_def bold_run_def)
  have n4: "[bold_run ''x'', plain_run ''y**''] \<noteq> three_runs ''**x'' ''y'' []"
    by (simp add: three_runs_def plain_run_def bold_run_def)
  have n5: "[bold_run ''a'', bold_run ''b''] \<noteq> three_runs [] ''a'' ''**b**''"
    by (simp add: three_runs_def plain_run_def bold_run_def)
  show ?thesis
    unfolding 1 2 3 4 5 by (intro conjI h n1 n2 n3 n4 n5) simp_all
qed

text \<open>
  C2, amended: for every input \<^verbatim>\<open>A**B**C\<close> where \<open>A\<close> holds no \<^verbatim>\<open>**\<close> and does not
  end with an asterisk, \<open>B\<close> is not empty, holds no \<^verbatim>\<open>**\<close> and no line feed and does
  not end with an asterisk, and \<open>C\<close> holds no pair (two asterisks, characters other
  than the line feed, two asterisks), the translator gives, in order, the plain run
  of \<open>A\<close> (left out when \<open>A\<close> is empty), the bold run of \<open>B\<close> and the plain run of
  \<open>C\<close> (left out when \<open>C\<close> is empty).
\<close>

theorem single_pair_runs:
  assumes A: "\<not> has_delim A" "\<not> ends_with_star A"
    and B: "B \<noteq> []" "\<not> has_delim B" "\<not> ends_with_star B" "list_all dot B"
    and C: "\<not> has_pair dot C"
  shows "attempt_to_parse_markdown (A @ delim @ B @ delim @ C) = three_runs A B C"
proof -
  let ?s = "A @ delim @ B @ delim @ C"
  have len: "length ?s = length A + (4 + length B) + length C"
    by (simp add: delim_def)
  have d2: "drop (length A + (4 + length B)) ?s = C"
  proof -
    have d: "\<And>xs ys :: string. drop (length xs) (xs @ ys) = ys" by simp
    have e1: "?s = (A @ delim @ B @ delim) @ C" by simp
    have e2: "length A + (4 + length B) = length (A @ delim @ B @ delim)"
      by (simp add: delim_def)
    show ?thesis by (subst e1, subst e2, rule d)
  qed
  show ?thesis
    unfolding attempt_to_parse_markdown_def finditer_single_pair[OF A B(2,3,4) C] Let_def
    using B(1) len
    using d2
    by (auto simp: add_def slice_def slice_from_def plain_run_def bold_run_def delim_def
        three_runs_def)
qed

theorem single_pair_runs_witness:
  "\<not> has_delim ''Built '' \<and> \<not> ends_with_star ''Built '' \<and>
   ''scalable'' \<noteq> [] \<and> \<not> has_delim ''scalable'' \<and> \<not> ends_with_star ''scalable'' \<and>
   list_all dot ''scalable'' \<and> \<not> has_pair dot '' systems'' \<and>
   attempt_to_parse_markdown (''Built '' @ delim @ ''scalable'' @ delim @ '' systems'')
     = [plain_run ''Built '', bold_run ''scalable'', plain_run '' systems'']"
proof -
  have a1: "\<not> has_delim ''Built ''" by (simp add: star_def)
  have a2: "\<not> ends_with_star ''Built ''" by (simp add: ends_with_star_def star_def)
  have b1: "''scalable'' \<noteq> []" by simp
  have b2: "\<not> has_delim ''scalable''" by (simp add: star_def)
  have b3: "\<not> ends_with_star ''scalable''" by (simp add: ends_with_star_def star_def)
  have b4: "list_all dot ''scalable''" by (simp add: dot_def newline_def)
  have c: "\<not> has_pair dot '' systems''"
    by (simp add: has_pair_def pair_at_def delim_def star_def upt_rec)
  have e: "three_runs ''Built '' ''scalable'' '' systems''
             = [plain_run ''Built '', bold_run ''scalable'', plain_run '' systems'']"
    by (simp add: three_runs_def)
  have r: "attempt_to_parse_markdown (''Built '' @ delim @ ''scalable'' @ delim @ '' systems'')
             = [plain_run ''Built '', bold_run ''scalable'', plain_run '' systems'']"
    using single_pair_runs[OF a1 a2 b1 b2 b3 b4 c] by (simp only: e)
  show ?thesis by (intro conjI a1 a2 b1 b2 b3 b4 c r)
qed

section \<open>The loops of the rewriter, field by field\<close>

lemma for_items_eq: "for_items items acc = Inr (acc @ map rewrite_item items)"
proof (induction items arbitrary: acc)
  case Nil
  then show ?case by simp
next
  case (Cons item items)
  then show ?case by (cases item) simp_all
qed

lemma for_items_total: "\<exists>out. for_items items acc = Inr out"
  by (simp add: for_items_eq)

lemma dict_set_fresh: "k \<notin> set (keys d) \<Longrightarrow> dict_set d k v = d @ [(k, v)]"
  by (induction d) (auto simp: keys_def)

lemma for_entries_step:
  "for_entries ((key, value) # entries) pc
     = for_entries entries (dict_set pc key (rewrite_value key value))"
  by (cases "value") (simp_all add: for_items_eq)

lemma for_entries_total: "\<exists>out. for_entries entries pc = Inr out"
proof (induction entries arbitrary: pc)
  case Nil
  then show ?case by simp
next
  case (Cons e entries)
  obtain key v where e: "e = (key, v)" by (cases e)
  show ?case unfolding e for_entries_step by (rule Cons.IH)
qed

lemma for_entries_eq:
  "distinct (keys (pc @ entries)) \<Longrightarrow>
   for_entries entries pc = Inr (pc @ map (\<lambda>kv. (fst kv, rewrite_value (fst kv) (snd kv))) entries)"
proof (induction entries arbitrary: pc)
  case Nil
  then show ?case by simp
next
  case (Cons e entries)
  obtain key v where e: "e = (key, v)" by (cases e)
  have fresh: "key \<notin> set (keys pc)"
    using Cons.prems by (auto simp: keys_def e)
  have d: "distinct (keys ((pc @ [(key, rewrite_value key v)]) @ entries))"
    using Cons.prems by (simp add: keys_def e)
  show ?case
    unfolding e for_entries_step dict_set_fresh[OF fresh] Cons.IH[OF d] by simp
qed

lemma process_context_eq:
  "distinct (keys context_data) \<Longrightarrow>
   process_context_for_richtext context_data
     = Inr (map (\<lambda>kv. (fst kv, rewrite_value (fst kv) (snd kv))) context_data)"
  using for_entries_eq[of "[]" context_data] by (simp add: process_context_for_richtext_def)

lemma keys_rewritten:
  "keys (map (\<lambda>kv. (fst kv, rewrite_value (fst kv) (snd kv))) d) = keys d"
  by (simp add: keys_def comp_def)

lemma dict_get_rewritten:
  "dict_get (map (\<lambda>kv. (fst kv, rewrite_value (fst kv) (snd kv))) d) k
     = map_option (rewrite_value k) (dict_get d k)"
  by (induction d) (auto simp: dict_get_def)

lemma rewrite_item_other: "\<not> isinstance_str v \<Longrightarrow> rewrite_item v = v"
  by (cases v) simp_all

lemma fields_disjoint: "k \<in> set list_fields \<Longrightarrow> k \<notin> set scalar_fields"
  by (auto simp: list_fields_def scalar_fields_def)

lemma rewrite_value_mismatch:
  "(k \<in> set scalar_fields \<and> \<not> isinstance_str v) \<or> (k \<in> set list_fields \<and> \<not> isinstance_list v)
   \<Longrightarrow> rewrite_value k v = v"
  using fields_disjoint[of k] by (cases v) auto

lemma rewrite_value_unclassified:
  "k \<notin> set list_fields \<Longrightarrow> k \<notin> set scalar_fields \<Longrightarrow> rewrite_value k v = v"
  by (cases v) auto

section \<open>Properties of the rewriter\<close>

text \<open>
  C3. For every context, the output of the rewriter has the keys of the input, and
  for every list field whose value is a list the output holds a list of the same
  length in which every element that is not a string (\<^verbatim>\<open>None\<close> and the others)
  stands unchanged at its position.
\<close>

theorem rewriter_keeps_keys_and_list_shape:
  assumes "distinct (keys context_data)"
  shows "\<exists>out. process_context_for_richtext context_data = Inr out \<and>
           keys out = keys context_data \<and>
           (\<forall>k xs. k \<in> set list_fields \<longrightarrow> dict_get context_data k = Some (VList xs) \<longrightarrow>
              (\<exists>ys. dict_get out k = Some (VList ys) \<and> length ys = length xs \<and>
                 (\<forall>i<length xs. \<not> isinstance_str (xs ! i) \<longrightarrow> ys ! i = xs ! i)))"
proof -
  let ?out = "map (\<lambda>kv. (fst kv, rewrite_value (fst kv) (snd kv))) context_data"
  have 1: "process_context_for_richtext context_data = Inr ?out"
    by (rule process_context_eq[OF assms])
  have 2: "keys ?out = keys context_data" by (rule keys_rewritten)
  have 3: "\<exists>ys. dict_get ?out k = Some (VList ys) \<and> length ys = length xs \<and>
             (\<forall>i<length xs. \<not> isinstance_str (xs ! i) \<longrightarrow> ys ! i = xs ! i)"
    if "k \<in> set list_fields" "dict_get context_data k = Some (VList xs)" for k xs
  proof (intro exI conjI)
    show "dict_get ?out k = Some (VList (map rewrite_item xs))"
      using that by (simp add: dict_get_rewritten)
    show "length (map rewrite_item xs) = length xs" by simp
    show "\<forall>i<length xs. \<not> isinstance_str (xs ! i) \<longrightarrow> map rewrite_item xs ! i = xs ! i"
      by (simp add: rewrite_item_other)
  qed
  from 1 2 3 show ?thesis by blast
qed

theorem rewriter_keeps_keys_and_list_shape_witness:
  "distinct (keys [(''SUMMARY'', VList [VStr ''Built **scalable** systems'', VNone]),
                   (''OTHER_FIELD'', VStr ''**bold**'')]) \<and>
   (\<exists>out. process_context_for_richtext
             [(''SUMMARY'', VList [VStr ''Built **scalable** systems'', VNone]),
              (''OTHER_FIELD'', VStr ''**bold**'')] = Inr out \<and>
      keys out = keys [(''SUMMARY'', VList [VStr ''Built **scalable** systems'', VNone]),
                       (''OTHER_FIELD'', VStr ''**bold**'')] \<and>
      (\<forall>k xs. k \<in> set list_fields \<longrightarrow>
         dict_get [(''SUMMARY'', VList [VStr ''Built **scalable** systems'', VNone]),
                   (''OTHER_FIELD'', VStr ''**bold**'')] k = Some (VList xs) \<longrightarrow>
         (\<exists>ys. dict_get out k = Some (VList ys) \<and> length ys = length xs \<and>
            (\<forall>i<length xs. \<not> isinstance_str (xs ! i) \<longrightarrow> ys ! i = xs ! i))))"
proof -
  have a: "distinct (keys [(''SUMMARY'', VList [VStr ''Built **scalable** systems'', VNone]),
                   (''OTHER_FIELD'', VStr ''**bold**'')])"
    by (simp add: keys_def)
  show ?thesis by (intro conjI a rewriter_keeps_keys_and_list_shape[OF a])
qed

text \<open>
  C6. A field that is classified for rich text but whose value has the other shape
  (a scalar field with a value that is not a string, such as \<^verbatim>\<open>None\<close> or a list, or
  a list field with a value that is not a list) is handed on unchanged, and no error
  is raised.
\<close>

theorem mismatched_shape_passes_through:
  assumes "distinct (keys context_data)"
    and "dict_get context_data k = Some v"
    and "(k \<in> set scalar_fields \<and> \<not> isinstance_str v)
           \<or> (k \<in> set list_fields \<and> \<not> isinstance_list v)"
  shows "\<exists>out. process_context_for_richtext context_data = Inr out \<and> dict_get out k = Some v"
proof -
  let ?out = "map (\<lambda>kv. (fst kv, rewrite_value (fst kv) (snd kv))) context_data"
  have "process_context_for_richtext context_data = Inr ?out"
    by (rule process_context_eq[OF assms(1)])
  moreover have "dict_get ?out k = Some v"
    using assms(2) rewrite_value_mismatch[OF assms(3)] by (simp add: dict_get_rewritten)
  ultimately show ?thesis by blast
qed

theorem mismatched_shape_passes_through_witness:
  "distinct (keys [(''ENGAGEMENT_SUMMARY_SS'', VNone)]) \<and>
   dict_get [(''ENGAGEMENT_SUMMARY_SS'', VNone)] ''ENGAGEMENT_SUMMARY_SS'' = Some VNone \<and>
   ((''ENGAGEMENT_SUMMARY_SS'' \<in> set scalar_fields \<and> \<not> isinstance_str VNone)
      \<or> (''ENGAGEMENT_SUMMARY_SS'' \<in> set list_fields \<and> \<not> isinstance_list VNone)) \<and>
   (\<exists>out. process_context_for_richtext [(''ENGAGEMENT_SUMMARY_SS'', VNone)] = Inr out \<and>
      dict_get out ''ENGAGEMENT_SUMMARY_SS'' = Some VNone)"
proof -
  have a: "distinct (keys [(''ENGAGEMENT_SUMMARY_SS'', VNone)])" by (simp add: keys_def)
  have b: "dict_get [(''ENGAGEMENT_SUMMARY_SS'', VNone)] ''ENGAGEMENT_SUMMARY_SS'' = Some VNone"
    by (simp add: dict_get_def)
  have c: "(''ENGAGEMENT_SUMMARY_SS'' \<in> set scalar_fields \<and> \<not> isinstance_str VNone)
      \<or> (''ENGAGEMENT_SUMMARY_SS'' \<in> set list_fields \<and> \<not> isinstance_list VNone)"
    by (simp add: scalar_fields_def)
  show ?thesis by (intro conjI a b c mismatched_shape_passes_through[OF a b c])
qed

text \<open>
  C7. A field whose name is in neither class is copied with its value unchanged,
  also when the value is a string with bold markers.
\<close>

theorem unclassified_field_unchanged:
  assumes "distinct (keys context_data)"
    and "dict_get context_data k = Some v"
    and "k \<notin> set list_fields" and "k \<notin> set scalar_fields"
  shows "\<exists>out. process_context_for_richtext context_data = Inr out \<and> dict_get out k = Some v"
proof -
  let ?out = "map (\<lambda>kv. (fst kv, rewrite_value (fst kv) (snd kv))) context_data"
  have "process_context_for_richtext context_data = Inr ?out"
    by (rule process_context_eq[OF assms(1)])
  moreover have "dict_get ?out k = Some v"
    using assms(2) rewrite_value_unclassified[OF assms(3,4)] by (simp add: dict_get_rewritten)
  ultimately show ?thesis by blast
qed

theorem unclassified_field_unchanged_witness:
  "distinct (keys [(''OTHER_FIELD'', VStr ''**bold**'')]) \<and>
   dict_get [(''OTHER_FIELD'', VStr ''**bold**'')] ''OTHER_FIELD'' = Some (VStr ''**bold**'') \<and>
   ''OTHER_FIELD'' \<notin> set list_fields \<and> ''OTHER_FIELD'' \<notin> set scalar_fields \<and>
   (\<exists>out. process_context_for_richtext [(''OTHER_FIELD'', VStr ''**bold**'')] = Inr out \<and>
      dict_get out ''OTHER_FIELD'' = Some (VStr ''**bold**''))"
proof -
  have a: "distinct (keys [(''OTHER_FIELD'', VStr ''**bold**'')])" by (simp add: keys_def)
  have b: "dict_get [(''OTHER_FIELD'', VStr ''**bold**'')] ''OTHER_FIELD''
             = Some (VStr ''**bold**'')"
    by (simp add: dict_get_def)
  have c: "''OTHER_FIELD'' \<notin> set list_fields" by (simp add: list_fields_def)
  have d: "''OTHER_FIELD'' \<notin> set scalar_fields" by (simp add: scalar_fields_def)
  show ?thesis by (intro conjI a b c d unclassified_field_unchanged[OF a b c d])
qed

text \<open>
  C9. The translator does not fail: on every string it returns its runs, and when
  nothing matches these are the one plain run of the whole string. The rewriter
  returns on every context as well: it calls the translator, which raises on a value
  that is not a string, only behind the test \<^verbatim>\<open>isinstance(..., str)\<close>, and iterates
  only over a value that is a list.
\<close>

theorem translator_and_rewriter_never_raise:
  "(\<exists>rt. attempt_to_parse_markdown_py (VStr s) = Inr (VRich rt)) \<and>
   (finditer s = [] \<longrightarrow> attempt_to_parse_markdown s = [plain_run s]) \<and>
   (\<exists>out. process_context_for_richtext context_data = Inr out)"
proof (intro conjI impI)
  show "\<exists>rt. attempt_to_parse_markdown_py (VStr s) = Inr (VRich rt)" by simp
  show "attempt_to_parse_markdown s = [plain_run s]" if "finditer s = []"
    using that by (simp add: attempt_to_parse_markdown_def add_def plain_run_def)
  show "\<exists>out. process_context_for_richtext context_data = Inr out"
    unfolding process_context_for_richtext_def by (rule for_entries_total)
qed

theorem translator_and_rewriter_never_raise_witness:
  "(\<exists>rt. attempt_to_parse_markdown_py (VStr ''Led team'') = Inr (VRich rt)) \<and>
   finditer ''Led team'' = [] \<and>
   attempt_to_parse_markdown ''Led team'' = [plain_run ''Led team''] \<and>
   (\<exists>out. process_context_for_richtext [(''ENGAGEMENT_SUMMARY_SS'', VStr ''Led team'')]
             = Inr out)"
proof -
  have h: "finditer ''Led team'' = []"
    by (simp add: finditer_def match_at_def star_def)
  note t = translator_and_rewriter_never_raise
             [of "''Led team''" "[(''ENGAGEMENT_SUMMARY_SS'', VStr ''Led team'')]"]
  from t have 1: "\<exists>rt. attempt_to_parse_markdown_py (VStr ''Led team'') = Inr (VRich rt)"
    by (rule conjunct1)
  from t h have 2: "attempt_to_parse_markdown ''Led team'' = [plain_run ''Led team'']"
    by blast
  from t have 3: "\<exists>out. process_context_for_richtext
                     [(''ENGAGEMENT_SUMMARY_SS'', VStr ''Led team'')] = Inr out"
    by blast
  show ?thesis by (intro conjI 1 h 2 3)
qed

section \<open>The loops on the heap write to new objects only\<close>

lemma item_step_props:
  assumes "pl < length h"
  shows "length h \<le> length (item_step h pl item acc)"
    and "\<forall>a<length h. a \<noteq> pl \<longrightarrow> item_step h pl item acc ! a = h ! a"
    and "\<exists>acc'. item_step h pl item acc ! pl = OList acc'"
  using assms by (cases "h ! item"; simp add: item_step_def nth_append)+

lemma for_item_h_step:
  assumes "val < length h" "h ! val = OList items" "i < length items"
    and "items ! i < length h" "pl < length h" "h ! pl = OList acc"
  shows "for_item_h h val pl i = for_item_h (item_step h pl (items ! i) acc) val pl (Suc i)"
  using assms
  by (subst for_item_h.simps, cases "h ! (items ! i)")
     (simp_all add: deref_def alloc_def list_append_def item_step_def nth_append Let_def
        attempt_to_parse_markdown_h_def)

lemma for_item_h_done:
  assumes "val < length h" "h ! val = OList items" "\<not> i < length items"
  shows "for_item_h h val pl i = Some (Inr h)"
  using assms by (subst for_item_h.simps) (simp add: deref_def)

lemma for_item_h_frame:
  assumes "val < n0" "n0 \<le> pl" "pl < length h" "h ! val = OList items"
    and "\<forall>r\<in>set items. r < n0" "h ! pl = OList acc"
  shows "\<exists>h' acc'. for_item_h h val pl i = Some (Inr h') \<and> length h \<le> length h' \<and>
           (\<forall>a<length h. a \<noteq> pl \<longrightarrow> h' ! a = h ! a) \<and> h' ! pl = OList acc'"
  using assms
proof (induction "length items - i" arbitrary: h i acc)
  case 0
  then have "\<not> i < length items" by simp
  with 0 have "for_item_h h val pl i = Some (Inr h)"
    by (intro for_item_h_done) auto
  with 0 show ?case by auto
next
  case (Suc n)
  then have i: "i < length items" by simp
  let ?h2 = "item_step h pl (items ! i) acc"
  have val: "val < length h" "val \<noteq> pl" using Suc.prems by auto
  have item: "items ! i < length h" using Suc.prems i by (meson nth_mem order_less_le_trans less_imp_le_nat less_trans)
  have step: "for_item_h h val pl i = for_item_h ?h2 val pl (Suc i)"
    using val(1) Suc.prems(4) i item Suc.prems(3,6) by (rule for_item_h_step)
  note P = item_step_props[OF Suc.prems(3), of "items ! i" acc]
  obtain acc2 where acc2: "?h2 ! pl = OList acc2" using P(3) by blast
  have n: "n = length items - Suc i" using Suc.hyps(2) by simp
  have pl2: "pl < length ?h2" using P(1) Suc.prems(3) by simp
  have v2: "?h2 ! val = OList items" using P(2) val Suc.prems(4) by simp
  from Suc.hyps(1)[OF n Suc.prems(1,2) pl2 v2 Suc.prems(5) acc2]
  obtain h' acc' where h': "for_item_h ?h2 val pl (Suc i) = Some (Inr h')"
    "length ?h2 \<le> length h'" "\<forall>a<length ?h2. a \<noteq> pl \<longrightarrow> h' ! a = ?h2 ! a"
    "h' ! pl = OList acc'" by blast
  have "\<forall>a<length h. a \<noteq> pl \<longrightarrow> h' ! a = h ! a"
    using h'(3) P(1,2) by (metis less_le_trans)
  moreover have "length h \<le> length h'" using h'(2) P(1) by simp
  ultimately show ?case using step h'(1,4) by auto
qed


lemma dict_set_subset: "set (dict_set d k v) \<subseteq> insert (k, v) (set d)"
  by (induction d) (auto split: if_splits)

lemma for_entry_h_step:
  assumes ctx: "ctx < n0" and pc: "n0 \<le> pc" "pc < length h"
    and es: "h ! ctx = ODict es" "i < length es" "\<forall>e\<in>set es. snd e < n0"
    and closed: "\<forall>a<n0. \<forall>r\<in>set (refs_of (h ! a)). r < n0"
    and out: "h ! pc = ODict out"
  shows "\<exists>h2 r. for_entry_h h ctx pc (length es) i = for_entry_h h2 ctx pc (length es) (Suc i)
           \<and> length h \<le> length h2 \<and> (\<forall>a<length h. a \<noteq> pc \<longrightarrow> h2 ! a = h ! a)
           \<and> h2 ! pc = ODict (dict_set out (fst (es ! i)) r)
           \<and> fresh_or_kept h n0 (fst (es ! i), r)"
proof -
  obtain key val where kv: "es ! i = (key, val)" by (cases "es ! i")
  have val: "val < n0" using es(2,3) kv by (metis nth_mem snd_conv)
  have n0: "n0 \<le> length h" "ctx < length h" "val < length h" "ctx \<noteq> pc" "val \<noteq> pc"
    using ctx pc val by auto
  have d_ctx: "deref h ctx = Some (ODict es)" using n0 es(1) by (simp add: deref_def)
  have d_val: "deref h val = Some (h ! val)" using n0 by (simp add: deref_def)
  show ?thesis
  proof (cases "key \<in> set list_fields \<and> isinstance_list_o (h ! val)")
    case True
    then obtain items where items: "h ! val = OList items" by (cases "h ! val") auto
    let ?h1 = "h @ [OList []]"
    let ?pl = "length h"
    have cl: "\<forall>r\<in>set items. r < n0" using closed val items by fastforce
    have "\<exists>h' acc'. for_item_h ?h1 val ?pl 0 = Some (Inr h') \<and> length ?h1 \<le> length h' \<and>
           (\<forall>a<length ?h1. a \<noteq> ?pl \<longrightarrow> h' ! a = ?h1 ! a) \<and> h' ! ?pl = OList acc'"
      by (rule for_item_h_frame[of val n0 ?pl ?h1 items "[]" 0])
         (use val n0 items cl in \<open>simp_all add: nth_append\<close>)
    then obtain h' acc' where h': "for_item_h ?h1 val ?pl 0 = Some (Inr h')"
      "length ?h1 \<le> length h'" "\<forall>a<length ?h1. a \<noteq> ?pl \<longrightarrow> h' ! a = ?h1 ! a"
      by blast
    have old: "\<forall>a<length h. h' ! a = h ! a"
      using h'(3) by (simp add: nth_append)
    have d_pc: "deref h' pc = Some (ODict out)"
      using old pc(2) out h'(2) by (simp add: deref_def)
    let ?h3 = "h'[pc := ODict (dict_set out key ?pl)]"
    have eq: "for_entry_h h ctx pc (length es) i = for_entry_h ?h3 ctx pc (length es) (Suc i)"
      using d_ctx d_val es(2) kv True h'(1) d_pc
      by (subst for_entry_h.simps) (simp add: alloc_def dict_setitem_def)
    have "length h \<le> length ?h3" using h'(2) by simp
    moreover have "\<forall>a<length h. a \<noteq> pc \<longrightarrow> ?h3 ! a = h ! a" using old by simp
    moreover have "?h3 ! pc = ODict (dict_set out (fst (es ! i)) ?pl)"
      using pc(2) h'(2) kv by simp
    moreover have "fresh_or_kept h n0 (fst (es ! i), ?pl)"
      using n0(1) by (simp add: fresh_or_kept_def)
    ultimately show ?thesis using eq by blast
  next
    case notlist: False
    show ?thesis
    proof (cases "key \<in> set scalar_fields \<and> isinstance_str_o (h ! val)")
      case True
      then obtain s where str: "h ! val = OStr s" by (cases "h ! val") auto
      let ?h1 = "h @ [ORich (attempt_to_parse_markdown s)]"
      let ?rt = "length h"
      let ?h2 = "?h1[pc := ODict (dict_set out key ?rt)]"
      have d_pc: "deref ?h1 pc = Some (ODict out)"
        using pc(2) out by (simp add: deref_def nth_append)
      have eq: "for_entry_h h ctx pc (length es) i = for_entry_h ?h2 ctx pc (length es) (Suc i)"
        using d_ctx d_val es(2) kv True notlist str d_pc
        by (subst for_entry_h.simps)
           (simp add: alloc_def dict_setitem_def attempt_to_parse_markdown_h_def)
      have "length h \<le> length ?h2" by simp
      moreover have "\<forall>a<length h. a \<noteq> pc \<longrightarrow> ?h2 ! a = h ! a" by (simp add: nth_append)
      moreover have "?h2 ! pc = ODict (dict_set out (fst (es ! i)) ?rt)"
        using pc(2) kv by simp
      moreover have "fresh_or_kept h n0 (fst (es ! i), ?rt)"
        using n0(1) by (simp add: fresh_or_kept_def)
      ultimately show ?thesis using eq by blast
    next
      case False
      let ?h2 = "h[pc := ODict (dict_set out key val)]"
      have d_pc: "deref h pc = Some (ODict out)"
        using pc(2) out by (simp add: deref_def)
      have eq: "for_entry_h h ctx pc (length es) i = for_entry_h ?h2 ctx pc (length es) (Suc i)"
        using d_ctx d_val es(2) kv False notlist d_pc
        by (subst for_entry_h.simps) (auto simp add: dict_setitem_def)
      have "length h \<le> length ?h2" by simp
      moreover have "\<forall>a<length h. a \<noteq> pc \<longrightarrow> ?h2 ! a = h ! a" by simp
      moreover have "?h2 ! pc = ODict (dict_set out (fst (es ! i)) val)"
        using pc(2) kv by simp
      moreover have "fresh_or_kept h n0 (fst (es ! i), val)"
        using notlist kv by (auto simp: fresh_or_kept_def)
      ultimately show ?thesis using eq by blast
    qed
  qed
qed

lemma fresh_or_kept_old:
  "\<forall>a<n0. h2 ! a = h ! a \<Longrightarrow> fresh_or_kept h2 n0 e = fresh_or_kept h n0 e"
  by (auto simp: fresh_or_kept_def)

lemma for_entry_h_done:
  assumes "ctx < length h" "h ! ctx = ODict es" "\<not> i < length es"
  shows "for_entry_h h ctx pc (length es) i = Some (Inr h)"
  using assms by (subst for_entry_h.simps) (simp add: deref_def)

lemma for_entry_h_frame:
  assumes "ctx < n0" "n0 \<le> pc" "pc < length h" "h ! ctx = ODict es"
    and "\<forall>e\<in>set es. snd e < n0"
    and "\<forall>a<n0. \<forall>r\<in>set (refs_of (h ! a)). r < n0"
    and "h ! pc = ODict out" "\<forall>e\<in>set out. fresh_or_kept h n0 e"
  shows "\<exists>h' out'. for_entry_h h ctx pc (length es) i = Some (Inr h') \<and> length h \<le> length h' \<and>
           (\<forall>a<n0. h' ! a = h ! a) \<and> h' ! pc = ODict out' \<and>
           (\<forall>e\<in>set out'. fresh_or_kept h n0 e)"
  using assms
proof (induction "length es - i" arbitrary: h i out)
  case 0
  have ni: "\<not> i < length es" using "0.hyps" by simp
  have cl: "ctx < length h" using "0.prems"(1,2,3) by simp
  have e: "for_entry_h h ctx pc (length es) i = Some (Inr h)"
    by (rule for_entry_h_done[OF cl "0.prems"(4) ni])
  show ?case
    using e "0.prems"(7,8) by (intro exI[of _ h] exI[of _ out]) simp
next
  case (Suc n)
  have i: "i < length es" using Suc.hyps(2) by simp
  from for_entry_h_step[OF Suc.prems(1,2,3,4) i Suc.prems(5,6,7)]
  obtain h2 r where s: "for_entry_h h ctx pc (length es) i = for_entry_h h2 ctx pc (length es) (Suc i)"
    "length h \<le> length h2" "\<forall>a<length h. a \<noteq> pc \<longrightarrow> h2 ! a = h ! a"
    "h2 ! pc = ODict (dict_set out (fst (es ! i)) r)"
    "fresh_or_kept h n0 (fst (es ! i), r)" by blast
  have old: "\<forall>a<n0. h2 ! a = h ! a" using s(3) Suc.prems(2,3) by auto
  have n: "n = length es - Suc i" using Suc.hyps(2) by simp
  have 3: "pc < length h2" using s(2) Suc.prems(3) by simp
  have 4: "h2 ! ctx = ODict es" using old Suc.prems(1,4) by simp
  have 6: "\<forall>a<n0. \<forall>r\<in>set (refs_of (h2 ! a)). r < n0" using old Suc.prems(6) by simp
  have 8: "\<forall>e\<in>set (dict_set out (fst (es ! i)) r). fresh_or_kept h2 n0 e"
    using dict_set_subset[of out "fst (es ! i)" r] Suc.prems(8) s(5)
    unfolding fresh_or_kept_old[OF old] by blast
  from Suc.hyps(1)[OF n Suc.prems(1,2) 3 4 Suc.prems(5) 6 s(4) 8]
  obtain h' out' where h': "for_entry_h h2 ctx pc (length es) (Suc i) = Some (Inr h')"
    "length h2 \<le> length h'" "\<forall>a<n0. h' ! a = h2 ! a" "h' ! pc = ODict out'"
    "\<forall>e\<in>set out'. fresh_or_kept h2 n0 e" by blast
  have a: "\<forall>a<n0. h' ! a = h ! a" using h'(3) old by simp
  have b: "length h \<le> length h'" using h'(2) s(2) by simp
  have c: "\<forall>e\<in>set out'. fresh_or_kept h n0 e"
    using h'(5) unfolding fresh_or_kept_old[OF old] .
  have d: "for_entry_h h ctx pc (length es) i = Some (Inr h')"
    using s(1) h'(1) by simp
  show ?case
    by (intro exI[of _ h'] exI[of _ out'] conjI d b a h'(4) c)
qed

lemma wf_heap_closed:
  "wf_heap h \<Longrightarrow> a < length h \<Longrightarrow> r \<in> set (refs_of (h ! a)) \<Longrightarrow> r < length h"
  by (auto simp: wf_heap_def list_all_iff)

text \<open>
  One run of the rewriter on a heap of five objects: the new \<^verbatim>\<open>dict\<close> is object 5,
  the new list is object 6, the new \<^verbatim>\<open>RichText\<close> is object 7, the \<^verbatim>\<open>None\<close> in the
  list and the string of the other field are shared with the input.
\<close>

lemma heap_example:
  "process_context_for_richtext_h
     [OStr ''Built **scalable** systems'', ONone, OList [0, 1], OStr ''**bold**'',
      ODict [(''SUMMARY'', 2), (''OTHER_FIELD'', 3)]] 4
   = Some (Inr (5,
       [OStr ''Built **scalable** systems'', ONone, OList [0, 1], OStr ''**bold**'',
        ODict [(''SUMMARY'', 2), (''OTHER_FIELD'', 3)],
        ODict [(''SUMMARY'', 6), (''OTHER_FIELD'', 3)],
        OList [7, 1],
        ORich [plain_run ''Built '', bold_run ''scalable'', plain_run '' systems'']]))"
proof -
  have t: "attempt_to_parse_markdown ''Built **scalable** systems''
             = [plain_run ''Built '', bold_run ''scalable'', plain_run '' systems'']"
    by (simp add: attempt_to_parse_markdown_def finditer_def match_at_def star_def add_def
        dot_def newline_def plain_run_def bold_run_def slice_def slice_from_def)
  show ?thesis
    by (simp add: process_context_for_richtext_h_def for_entry_h.simps for_item_h.simps
        alloc_def deref_def list_append_def dict_setitem_def attempt_to_parse_markdown_h_def
        list_fields_def scalar_fields_def t Let_def)
qed

section \<open>The rewriter and the objects of its caller\<close>

text \<open>
  C10. The rewriter never mutates its input. On every well-formed heap and every
  context that is a \<^verbatim>\<open>dict\<close>, the call returns; afterwards every object that existed
  before the call is as it was, the input \<^verbatim>\<open>dict\<close> and every list in it among them;
  the output \<^verbatim>\<open>dict\<close> is a new object; and no list field of the output holds a list
  object of the input: such a field holds a new list.
\<close>

theorem rewriter_leaves_input_heap:
  assumes "wf_heap h" and "deref h context_data = Some (ODict es)"
  shows "\<exists>h' out. process_context_for_richtext_h h context_data = Some (Inr (length h, h')) \<and>
           take (length h) h' = h \<and> h' ! length h = ODict out \<and>
           (\<forall>e\<in>set out. fst e \<in> set list_fields \<and> snd e < length h
                \<longrightarrow> \<not> isinstance_list_o (h ! snd e))"
proof -
  let ?n0 = "length h"
  let ?h1 = "h @ [ODict []]"
  from assms(2) have c: "context_data < ?n0" "h ! context_data = ODict es"
    by (auto simp: deref_def split: if_splits)
  have es: "\<forall>e\<in>set es. snd e < ?n0"
    using wf_heap_closed[OF assms(1) c(1)] c(2) by auto
  have closed: "\<forall>a<?n0. \<forall>r\<in>set (refs_of (?h1 ! a)). r < ?n0"
    using wf_heap_closed[OF assms(1)] by (simp add: nth_append)
  have "\<exists>h' out'. for_entry_h ?h1 context_data ?n0 (length es) 0 = Some (Inr h') \<and>
          length ?h1 \<le> length h' \<and> (\<forall>a<?n0. h' ! a = ?h1 ! a) \<and> h' ! ?n0 = ODict out' \<and>
          (\<forall>e\<in>set out'. fresh_or_kept ?h1 ?n0 e)"
    by (rule for_entry_h_frame[OF c(1) order_refl _ _ es closed, of "[]"])
       (use c in \<open>simp_all add: nth_append\<close>)
  then obtain h' out where h': "for_entry_h ?h1 context_data ?n0 (length es) 0 = Some (Inr h')"
    "length ?h1 \<le> length h'" "\<forall>a<?n0. h' ! a = ?h1 ! a" "h' ! ?n0 = ODict out"
    "\<forall>e\<in>set out. fresh_or_kept ?h1 ?n0 e" by blast
  have 1: "process_context_for_richtext_h h context_data = Some (Inr (?n0, h'))"
    using c h'(1) by (simp add: process_context_for_richtext_h_def alloc_def deref_def nth_append)
  have 2: "take ?n0 h' = h"
    using h'(2,3) by (intro nth_equalityI) (simp_all add: nth_append)
  have 3: "\<forall>e\<in>set out. fst e \<in> set list_fields \<and> snd e < ?n0
             \<longrightarrow> \<not> isinstance_list_o (h ! snd e)"
    using h'(5) by (auto simp: fresh_or_kept_def nth_append)
  from 1 2 h'(4) 3 show ?thesis by blast
qed

theorem rewriter_leaves_input_heap_witness:
  "wf_heap [OStr ''Built **scalable** systems'', ONone, OList [0, 1], OStr ''**bold**'',
            ODict [(''SUMMARY'', 2), (''OTHER_FIELD'', 3)]] \<and>
   deref [OStr ''Built **scalable** systems'', ONone, OList [0, 1], OStr ''**bold**'',
          ODict [(''SUMMARY'', 2), (''OTHER_FIELD'', 3)]] 4
     = Some (ODict [(''SUMMARY'', 2), (''OTHER_FIELD'', 3)]) \<and>
   (\<exists>h' out.
      process_context_for_richtext_h
        [OStr ''Built **scalable** systems'', ONone, OList [0, 1], OStr ''**bold**'',
         ODict [(''SUMMARY'', 2), (''OTHER_FIELD'', 3)]] 4
        = Some (Inr (length [OStr ''Built **scalable** systems'', ONone, OList [0, 1],
                             OStr ''**bold**'', ODict [(''SUMMARY'', 2), (''OTHER_FIELD'', 3)]],
                     h')) \<and>
      take (length [OStr ''Built **scalable** systems'', ONone, OList [0, 1],
                    OStr ''**bold**'', ODict [(''SUMMARY'', 2), (''OTHER_FIELD'', 3)]]) h'
        = [OStr ''Built **scalable** systems'', ONone, OList [0, 1], OStr ''**bold**'',
           ODict [(''SUMMARY'', 2), (''OTHER_FIELD'', 3)]] \<and>
      h' ! length [OStr ''Built **scalable** systems'', ONone, OList [0, 1],
                   OStr ''**bold**'', ODict [(''SUMMARY'', 2), (''OTHER_FIELD'', 3)]]
        = ODict out \<and>
      (\<forall>e\<in>set out.
          fst e \<in> set list_fields \<and>
          snd e < length [OStr ''Built **scalable** systems'', ONone, OList [0, 1],
                          OStr ''**bold**'', ODict [(''SUMMARY'', 2), (''OTHER_FIELD'', 3)]]
          \<longrightarrow> \<not> isinstance_list_o
                ([OStr ''Built **scalable** systems'', ONone, OList [0, 1],
                  OStr ''**bold**'', ODict [(''SUMMARY'', 2), (''OTHER_FIELD'', 3)]] ! snd e)))"
proof -
  have a: "wf_heap [OStr ''Built **scalable** systems'', ONone, OList [0, 1], OStr ''**bold**'',
            ODict [(''SUMMARY'', 2), (''OTHER_FIELD'', 3)]]"
    by (simp add: wf_heap_def)
  have b: "deref [OStr ''Built **scalable** systems'', ONone, OList [0, 1], OStr ''**bold**'',
          ODict [(''SUMMARY'', 2), (''OTHER_FIELD'', 3)]] 4
     = Some (ODict [(''SUMMARY'', 2), (''OTHER_FIELD'', 3)])"
    by (simp add: deref_def)
  show ?thesis by (intro conjI a b rewriter_leaves_input_heap[OF a b])
qed

end
